theory Spec2Isabelle
  imports Complex_Main "HOL-Library.Word"
begin

section \<open>Go runtime notions used by the two source files\<close>

text \<open>
  A Go slice is a window on a backing array: a logical length and a capacity.  The
  record keeps the backing array from the slice's first element on (so the capacity is
  its length) and the logical length.  The elements a reader of the slice sees are the
  first \<open>len\<close> elements of the backing array.
\<close>

type_synonym int64 = "64 word"

datatype error = SliceBoundsOutOfRange

record 'a slice =
  backing :: "'a list"
  len :: nat

definition cap :: "'a slice \<Rightarrow> nat" where
  "cap s = length (backing s)"

definition elems :: "'a slice \<Rightarrow> 'a list" where
  "elems s = take (len s) (backing s)"

text \<open>\<^verbatim>\<open>make([]T, sz)\<close>: \<open>sz\<close> zero values, length and capacity \<open>sz\<close>.\<close>

definition make_slice :: "'a \<Rightarrow> nat \<Rightarrow> 'a slice" where
  "make_slice z sz = \<lparr>backing = replicate sz z, len = sz\<rparr>"

text \<open>
  \<^verbatim>\<open>s[:c]\<close>: the run-time panics unless \<open>0 \<le> c \<le> cap(s)\<close>; otherwise the result
  shares the backing array and has length \<open>c\<close> (which may exceed the old length).
\<close>

definition reslice :: "'a slice \<Rightarrow> int \<Rightarrow> error + 'a slice" where
  "reslice s c =
     (if c < 0 \<or> int (cap s) < c then Inl SliceBoundsOutOfRange
      else Inr (s\<lparr>len := nat c\<rparr>))"

text \<open>
  A callee that is handed a slice by value can overwrite the visible elements but cannot
  change the caller's slice header.  \<open>overlay out old\<close> is \<open>old\<close> with the elements
  of \<open>out\<close> written over its front; its length is that of \<open>old\<close>.
\<close>

fun overlay :: "'a list \<Rightarrow> 'a list \<Rightarrow> 'a list" where
  "overlay out [] = []"
| "overlay [] old = old"
| "overlay (x # out) (y # old) = x # overlay out old"

section \<open>pkg/data/gen: values sequences\<close>

subsection \<open>The typed array and the sequence interfaces\<close>

text \<open>
  \<^verbatim>\<open>floatArray\<close>, \<^verbatim>\<open>integerArray\<close>, ... : a pair of slices.  The five generated
  variants differ only in the element type of \<open>Values\<close>, here the type variable \<open>'v\<close>.
\<close>

record 'v typedArray =
  Timestamps :: "int64 slice"
  Values :: "'v slice"

text \<open>
  Modelled from the spec: \<^verbatim>\<open>newFloatArrayLen(sz)\<close> (and its four siblings) is not part of
  the two source files.  It allocates the buffer pair with \<open>sz\<close> zero timestamps and
  \<open>sz\<close> zero values; \<open>z\<close> is the zero value of the element type.
\<close>

definition newArrayLen :: "'v \<Rightarrow> nat \<Rightarrow> 'v typedArray" where
  "newArrayLen z sz = \<lparr>Timestamps = make_slice 0 sz, Values = make_slice z sz\<rparr>"

text \<open>
  \<^verbatim>\<open>FloatValuesSequence\<close> and its siblings are interfaces with the methods \<^verbatim>\<open>Reset()\<close>
  and \<^verbatim>\<open>Write(v []T)\<close>; \<^verbatim>\<open>TimestampSequence\<close>, declared outside the two source files, is
  used through the same two methods on \<^verbatim>\<open>[]int64\<close>.  An interface value is an object: its
  private state and its two methods.  \<open>Write_m\<close> receives the object's state and the
  visible elements of the slice and returns the new state and the elements it leaves in
  the slice.  The generators handed to a time values sequence are taken to be non-nil
  objects that only this sequence calls.
\<close>

record ('s, 'a) sequence =
  obj :: 's
  Reset_m :: "'s \<Rightarrow> 's"
  Write_m :: "'s \<Rightarrow> 'a list \<Rightarrow> 's \<times> 'a list"

definition seq_Reset :: "('s, 'a) sequence \<Rightarrow> ('s, 'a) sequence" where
  "seq_Reset q = q\<lparr>obj := Reset_m q (obj q)\<rparr>"

definition seq_Write :: "('s, 'a) sequence \<Rightarrow> 'a slice \<Rightarrow> ('s, 'a) sequence \<times> 'a slice" where
  "seq_Write q v =
     (case Write_m q (obj q) (elems v) of
        (st, out) \<Rightarrow> (q\<lparr>obj := st\<rparr>, v\<lparr>backing := overlay (take (len v) out) (backing v)\<rparr>))"

subsection \<open>timeFloatValuesSequence and its four siblings\<close>

text \<open>
  The struct fields \<^verbatim>\<open>vals\<close>, \<^verbatim>\<open>ts\<close>, \<^verbatim>\<open>vs\<close>, \<^verbatim>\<open>count\<close>, \<^verbatim>\<open>n\<close>, prefixed with \<open>tvs_\<close>.
  \<^verbatim>\<open>count\<close> and \<^verbatim>\<open>n\<close> are Go \<^verbatim>\<open>int\<close>s; the only arithmetic on them is
  \<^verbatim>\<open>min(s.n, B)\<close> and \<^verbatim>\<open>s.n -= c\<close> with \<open>0 < c \<le> s.n\<close>, which cannot wrap, so they are
  modelled as \<open>int\<close>.
\<close>

record ('s, 't, 'v) timeValuesSequence =
  tvs_vals :: "'v typedArray"
  tvs_ts :: "('s, int64) sequence"
  tvs_vs :: "('t, 'v) sequence"
  tvs_count :: int
  tvs_n :: int

text \<open>
  \<open>B\<close> stands for the constant \<^verbatim>\<open>tsdb.DefaultMaxPointsPerBlock\<close>, which is declared outside
  the two source files.
\<close>

definition NewTimeValuesSequence ::
  "nat \<Rightarrow> 'v \<Rightarrow> int \<Rightarrow> ('s, int64) sequence \<Rightarrow> ('t, 'v) sequence \<Rightarrow> ('s, 't, 'v) timeValuesSequence" where
  "NewTimeValuesSequence B z count ts vs =
     \<lparr>tvs_vals = newArrayLen z B, tvs_ts = ts, tvs_vs = vs, tvs_count = count, tvs_n = count\<rparr>"

definition tvs_Reset :: "('s, 't, 'v) timeValuesSequence \<Rightarrow> ('s, 't, 'v) timeValuesSequence" where
  "tvs_Reset s =
     (let s1 = s\<lparr>tvs_ts := seq_Reset (tvs_ts s)\<rparr>;
          s2 = s1\<lparr>tvs_vs := seq_Reset (tvs_vs s1)\<rparr>
      in s2\<lparr>tvs_n := tvs_count s2\<rparr>)"

definition tvs_Next ::
  "nat \<Rightarrow> ('s, 't, 'v) timeValuesSequence \<Rightarrow> error + (bool \<times> ('s, 't, 'v) timeValuesSequence)" where
  "tvs_Next B s =
     (if 0 < tvs_n s then
        let c = min (tvs_n s) (int B);
            s1 = s\<lparr>tvs_n := tvs_n s - c\<rparr>
        in case reslice (Timestamps (tvs_vals s1)) c of
             Inl e \<Rightarrow> Inl e
           | Inr t \<Rightarrow>
               let s2 = s1\<lparr>tvs_vals := (tvs_vals s1)\<lparr>Timestamps := t\<rparr>\<rparr>
               in case reslice (Values (tvs_vals s2)) c of
                    Inl e \<Rightarrow> Inl e
                  | Inr v \<Rightarrow>
                      let s3 = s2\<lparr>tvs_vals := (tvs_vals s2)\<lparr>Values := v\<rparr>\<rparr>;
                          (ts', t') = seq_Write (tvs_ts s3) (Timestamps (tvs_vals s3));
                          s4 = s3\<lparr>tvs_ts := ts', tvs_vals := (tvs_vals s3)\<lparr>Timestamps := t'\<rparr>\<rparr>;
                          (vs', v') = seq_Write (tvs_vs s4) (Values (tvs_vals s4));
                          s5 = s4\<lparr>tvs_vs := vs', tvs_vals := (tvs_vals s4)\<lparr>Values := v'\<rparr>\<rparr>
                      in Inr (True, s5)
      else Inr (False, s))"

definition tvs_Values :: "('s, 't, 'v) timeValuesSequence \<Rightarrow> 'v typedArray" where
  "tvs_Values s = tvs_vals s"

datatype FieldType = models_Float | models_Integer | models_Unsigned | models_String | models_Boolean

text \<open>
  \<^verbatim>\<open>ValueType()\<close> returns a constant that is fixed per generated variant; \<open>ft\<close> is that
  constant.
\<close>

definition tvs_ValueType :: "FieldType \<Rightarrow> ('s, 't, 'v) timeValuesSequence \<Rightarrow> FieldType" where
  "tvs_ValueType ft s = ft"

subsection \<open>Callers of a sequence\<close>

text \<open>What a reader of the typed array sees: the visible timestamps and values.\<close>

definition block :: "'v typedArray \<Rightarrow> int64 list \<times> 'v list" where
  "block a = (elems (Timestamps a), elems (Values a))"

text \<open>
  \<open>Next_times B k s\<close>: a caller makes \<open>k\<close> successive calls of \<^verbatim>\<open>Next()\<close> and after each
  one reads \<^verbatim>\<open>Values()\<close>.  The result lists, call by call, what \<^verbatim>\<open>Next()\<close> returned and
  the block seen; a panic aborts the run.
\<close>

fun Next_times ::
  "nat \<Rightarrow> nat \<Rightarrow> ('s, 't, 'v) timeValuesSequence \<Rightarrow>
     error + ((bool \<times> int64 list \<times> 'v list) list \<times> ('s, 't, 'v) timeValuesSequence)" where
  "Next_times B 0 s = Inr ([], s)"
| "Next_times B (Suc k) s =
     (case tvs_Next B s of
        Inl e \<Rightarrow> Inl e
      | Inr (r, s1) \<Rightarrow>
          (case Next_times B k s1 of
             Inl e \<Rightarrow> Inl e
           | Inr (obs, s2) \<Rightarrow> Inr ((r, block (tvs_Values s1)) # obs, s2)))"

text \<open>
  The states a sequence can be in: the one its constructor returns, and every state that
  \<^verbatim>\<open>Reset()\<close> or a returning \<^verbatim>\<open>Next()\<close> leads to from such a state.
\<close>

inductive reachable ::
  "nat \<Rightarrow> 'v \<Rightarrow> int \<Rightarrow> ('s, int64) sequence \<Rightarrow> ('t, 'v) sequence \<Rightarrow>
     ('s, 't, 'v) timeValuesSequence \<Rightarrow> bool"
  for B z count ts vs where
  reach_New: "reachable B z count ts vs (NewTimeValuesSequence B z count ts vs)"
| reach_Reset: "reachable B z count ts vs s \<Longrightarrow> reachable B z count ts vs (tvs_Reset s)"
| reach_Next: "reachable B z count ts vs s \<Longrightarrow> tvs_Next B s = Inr (r, s') \<Longrightarrow>
     reachable B z count ts vs s'"

text \<open>
  Two generators used to run the model on concrete inputs: timestamps that count up from
  the object's state, and a values sequence that writes one constant.
\<close>

definition counting_ts :: "(int64, int64) sequence" where
  "counting_ts =
     \<lparr>obj = 0, Reset_m = (\<lambda>_. 0),
      Write_m = (\<lambda>st xs. (st + of_nat (length xs), map (\<lambda>i. st + of_nat i) [0..<length xs]))\<rparr>"

definition constant_vs :: "'v \<Rightarrow> (unit, 'v) sequence" where
  "constant_vs v =
     \<lparr>obj = (), Reset_m = (\<lambda>_. ()), Write_m = (\<lambda>st xs. (st, map (\<lambda>_. v) xs))\<rparr>"

text \<open>
  The method set of a time values sequence, as a caller sees it: the operation called and
  what it returned.  \<^verbatim>\<open>Values()\<close> returns a pointer to the typed array; the result records
  the block a reader sees through it.
\<close>

datatype tvs_op = Op_Reset | Op_Next | Op_Values | Op_ValueType

datatype 'v tvs_result =
  Res_Reset | Res_Next bool | Res_Values "int64 list \<times> 'v list" | Res_ValueType FieldType

fun tvs_call ::
  "nat \<Rightarrow> FieldType \<Rightarrow> tvs_op \<Rightarrow> ('s, 't, 'v) timeValuesSequence \<Rightarrow>
     error + ('v tvs_result \<times> ('s, 't, 'v) timeValuesSequence)" where
  "tvs_call B ft Op_Reset s = Inr (Res_Reset, tvs_Reset s)"
| "tvs_call B ft Op_Next s =
     (case tvs_Next B s of Inl e \<Rightarrow> Inl e | Inr (r, s') \<Rightarrow> Inr (Res_Next r, s'))"
| "tvs_call B ft Op_Values s = Inr (Res_Values (block (tvs_Values s)), s)"
| "tvs_call B ft Op_ValueType s = Inr (Res_ValueType (tvs_ValueType ft s), s)"

fun tvs_calls ::
  "nat \<Rightarrow> FieldType \<Rightarrow> tvs_op list \<Rightarrow> ('s, 't, 'v) timeValuesSequence \<Rightarrow>
     error + ('v tvs_result list \<times> ('s, 't, 'v) timeValuesSequence)" where
  "tvs_calls B ft [] s = Inr ([], s)"
| "tvs_calls B ft (x # xs) s =
     (case tvs_call B ft x s of
        Inl e \<Rightarrow> Inl e
      | Inr (r, s1) \<Rightarrow>
          (case tvs_calls B ft xs s1 of
             Inl e \<Rightarrow> Inl e
           | Inr (rs, s2) \<Rightarrow> Inr (r # rs, s2)))"


subsection \<open>Auxiliary notions for the proofs\<close>

text \<open>
  The state in which a \<^verbatim>\<open>Next()\<close> that enters its \<^verbatim>\<open>if\<close> branch and does not panic
  leaves the sequence.
\<close>

definition Next_ok :: "nat \<Rightarrow> ('s, 't, 'v) timeValuesSequence \<Rightarrow> ('s, 't, 'v) timeValuesSequence" where
  "Next_ok B s =
     (let c = min (tvs_n s) (int B);
          wt = seq_Write (tvs_ts s) ((Timestamps (tvs_vals s))\<lparr>len := nat c\<rparr>);
          wv = seq_Write (tvs_vs s) ((Values (tvs_vals s))\<lparr>len := nat c\<rparr>)
      in \<lparr>tvs_vals = \<lparr>Timestamps = snd wt, Values = snd wv\<rparr>,
          tvs_ts = fst wt, tvs_vs = fst wv, tvs_count = tvs_count s, tvs_n = tvs_n s - c\<rparr>)"

text \<open>Both slices of the typed array have capacity \<open>B\<close>.\<close>

definition caps :: "nat \<Rightarrow> ('s, 't, 'v) timeValuesSequence \<Rightarrow> bool" where
  "caps B s \<longleftrightarrow> cap (Timestamps (tvs_vals s)) = B \<and> cap (Values (tvs_vals s)) = B"







section \<open>tsm1: the array cursor iterator\<close>

subsection \<open>Cursor objects and the store\<close>

text \<open>
  The iterator keeps pointers to cursor objects and hands the same pointers to its
  callers, so the objects live in a store: \<open>cell\<close> maps an address to the object there,
  and the addresses below \<open>next_addr\<close> are the allocated ones.  \<open>alloc\<close> is what a Go
  constructor returning a pointer does: the object is placed at an address that was not
  in use.
\<close>

type_synonym addr = nat

record 'c store =
  cell :: "addr \<Rightarrow> 'c"
  next_addr :: addr

definition alloc :: "'c \<Rightarrow> 'c store \<Rightarrow> addr \<times> 'c store" where
  "alloc c h = (next_addr h, \<lparr>cell = (cell h)(next_addr h := c), next_addr = Suc (next_addr h)\<rparr>)"

text \<open>
  The anonymous structs \<^verbatim>\<open>asc\<close> and \<^verbatim>\<open>desc\<close> of the iterator: one pointer per value
  type, \<open>None\<close> for \<^verbatim>\<open>nil\<close>.
\<close>

record cursorSlots =
  Float :: "addr option"
  Integer :: "addr option"
  Unsigned :: "addr option"
  String :: "addr option"
  Boolean :: "addr option"

text \<open>
  The fields of \<^verbatim>\<open>arrayCursorIterator\<close> that the build methods use: the engine \<^verbatim>\<open>e\<close>, the
  two slot structs, and the key buffer \<^verbatim>\<open>key\<close> in which \<^verbatim>\<open>q.seriesFieldKeyBytes\<close> assembles
  the series-field key.  The receiver and its engine are taken to be non-nil.
\<close>

type_synonym bytes = "8 word list"

record 'e arrayCursorIterator =
  itr_e :: 'e
  itr_key :: bytes
  itr_asc :: cursorSlots
  itr_desc :: cursorSlots

text \<open>
  \<^verbatim>\<open>query.IteratorOptions\<close>: the field \<^verbatim>\<open>Ascending\<close> is read directly; the rest of the
  struct is the record's extension and is read through \<^verbatim>\<open>SeekTime()\<close> and \<^verbatim>\<open>StopTime()\<close>.
\<close>

record IteratorOptions =
  Ascending :: bool

text \<open>
  Modelled from the spec: the collaborators of the build methods are declared outside the
  two source files.  \<open>seriesFieldKeyBytes\<close> is a method of the iterator: it assembles
  the series-field key from the measurement name, the tags and the field name in the
  iterator's key buffer, overwriting what the buffer held, and returns the buffer; the
  collaborator computes the new buffer from the old one and the three arguments, and
  \<open>call_seriesFieldKeyBytes\<close> below stores it in the receiver.  \<open>Cache_Values\<close> is the
  write cache's snapshot for a key; \<open>KeyCursor\<close> opens the disk cursor of the engine for a key, a seek
  time and a direction (the \<^verbatim>\<open>context.Context\<close> argument is only passed through and is
  left out); \<open>newCursor ty asc\<close> is the object that \<^verbatim>\<open>newFloatArrayAscendingCursor()\<close> and
  its nine siblings allocate; \<open>reset ty asc\<close> is the \<^verbatim>\<open>reset\<close> method of that cursor type:
  it rebinds the cursor and reports an error or \<^verbatim>\<open>nil\<close>.
\<close>

record ('o, 'e, 'cv, 'kc, 'c, 'x) collaborators =
  seriesFieldKeyBytes :: "bytes \<Rightarrow> bytes \<Rightarrow> (bytes \<times> bytes) list \<Rightarrow> string \<Rightarrow> bytes"
  Cache_Values :: "'e \<Rightarrow> bytes \<Rightarrow> 'cv"
  KeyCursor :: "'e \<Rightarrow> bytes \<Rightarrow> int64 \<Rightarrow> bool \<Rightarrow> 'kc"
  SeekTime :: "'o IteratorOptions_scheme \<Rightarrow> int64"
  StopTime :: "'o IteratorOptions_scheme \<Rightarrow> int64"
  newCursor :: "FieldType \<Rightarrow> bool \<Rightarrow> 'c"
  reset :: "FieldType \<Rightarrow> bool \<Rightarrow> 'c \<Rightarrow> int64 \<Rightarrow> int64 \<Rightarrow> 'cv \<Rightarrow> 'kc \<Rightarrow> 'c \<times> 'x option"

subsection \<open>The build methods\<close>

text \<open>
  The file is generated from a template: the five build methods are the same text up to
  the name of the value type.  \<open>get_slot\<close> and \<open>set_slot\<close> read and assign the field
  of that name in a slot struct.
\<close>

fun get_slot :: "FieldType \<Rightarrow> cursorSlots \<Rightarrow> addr option" where
  "get_slot models_Float sl = Float sl"
| "get_slot models_Integer sl = Integer sl"
| "get_slot models_Unsigned sl = Unsigned sl"
| "get_slot models_String sl = String sl"
| "get_slot models_Boolean sl = Boolean sl"

fun set_slot :: "FieldType \<Rightarrow> addr option \<Rightarrow> cursorSlots \<Rightarrow> cursorSlots" where
  "set_slot models_Float p sl = sl\<lparr>Float := p\<rparr>"
| "set_slot models_Integer p sl = sl\<lparr>Integer := p\<rparr>"
| "set_slot models_Unsigned p sl = sl\<lparr>Unsigned := p\<rparr>"
| "set_slot models_String p sl = sl\<lparr>String := p\<rparr>"
| "set_slot models_Boolean p sl = sl\<lparr>Boolean := p\<rparr>"

text \<open>
  \<^verbatim>\<open>q.asc.T.reset(seek, stop, cacheValues, keyCursor)\<close> through the pointer \<open>a\<close>: the
  object at \<open>a\<close> is replaced by what the method leaves, and the error is returned.
\<close>

definition call_reset ::
  "('o, 'e, 'cv, 'kc, 'c, 'x) collaborators \<Rightarrow> FieldType \<Rightarrow> bool \<Rightarrow> addr \<Rightarrow>
     int64 \<Rightarrow> int64 \<Rightarrow> 'cv \<Rightarrow> 'kc \<Rightarrow> 'c store \<Rightarrow> 'x option \<times> 'c store" where
  "call_reset env ty asc a seek stop cacheValues keyCursor h =
     (case reset env ty asc (cell h a) seek stop cacheValues keyCursor of
        (c, err) \<Rightarrow> (err, h\<lparr>cell := (cell h)(a := c)\<rparr>))"

text \<open>
  \<^verbatim>\<open>q.seriesFieldKeyBytes(name, tags, field)\<close>: the key buffer of the receiver is
  overwritten with the key, which is also the value returned.  The key handed to the
  cache and to the disk cursor is this buffer; what keeps a reference to it sees later
  rewrites of the buffer, which the store of cursor objects does not represent.
\<close>

definition call_seriesFieldKeyBytes ::
  "('o, 'e, 'cv, 'kc, 'c, 'x) collaborators \<Rightarrow> bytes \<Rightarrow> (bytes \<times> bytes) list \<Rightarrow> string \<Rightarrow>
     'e arrayCursorIterator \<Rightarrow> bytes \<times> 'e arrayCursorIterator" where
  "call_seriesFieldKeyBytes env name tags field q =
     (let key = seriesFieldKeyBytes env (itr_key q) name tags field
      in (key, q\<lparr>itr_key := key\<rparr>))"

text \<open>
  The template.  The result is the pair the Go method returns (the cursor or \<^verbatim>\<open>nil\<close>,
  the error or \<^verbatim>\<open>nil\<close>), with the store and the iterator as the call leaves them.
\<close>

definition buildArrayCursor ::
  "FieldType \<Rightarrow> ('o, 'e, 'cv, 'kc, 'c, 'x) collaborators \<Rightarrow>
     bytes \<Rightarrow> (bytes \<times> bytes) list \<Rightarrow> string \<Rightarrow> 'o IteratorOptions_scheme \<Rightarrow>
     'c store \<Rightarrow> 'e arrayCursorIterator \<Rightarrow>
     (addr option \<times> 'x option) \<times> 'c store \<times> 'e arrayCursorIterator" where
  "buildArrayCursor ty env name tags field opt h q0 =
     (case call_seriesFieldKeyBytes env name tags field q0 of
        (key, q) \<Rightarrow>
     (let cacheValues = Cache_Values env (itr_e q) key;
          keyCursor = KeyCursor env (itr_e q) key (SeekTime env opt) (Ascending opt)
      in if Ascending opt then
           (case (case get_slot ty (itr_asc q) of
                    None \<Rightarrow>
                      (case alloc (newCursor env ty True) h of
                         (a, h1) \<Rightarrow> (a, h1, q\<lparr>itr_asc := set_slot ty (Some a) (itr_asc q)\<rparr>))
                  | Some a \<Rightarrow> (a, h, q)) of
              (a, h1, q1) \<Rightarrow>
                (case call_reset env ty True a (SeekTime env opt) (StopTime env opt)
                        cacheValues keyCursor h1 of
                   (Some err, h2) \<Rightarrow> ((None, Some err), h2, q1)
                 | (None, h2) \<Rightarrow> ((get_slot ty (itr_asc q1), None), h2, q1)))
         else
           (case (case get_slot ty (itr_desc q) of
                    None \<Rightarrow>
                      (case alloc (newCursor env ty False) h of
                         (a, h1) \<Rightarrow> (a, h1, q\<lparr>itr_desc := set_slot ty (Some a) (itr_desc q)\<rparr>))
                  | Some a \<Rightarrow> (a, h, q)) of
              (a, h1, q1) \<Rightarrow>
                (case call_reset env ty False a (SeekTime env opt) (StopTime env opt)
                        cacheValues keyCursor h1 of
                   (Some err, h2) \<Rightarrow> ((None, Some err), h2, q1)
                 | (None, h2) \<Rightarrow> ((get_slot ty (itr_desc q1), None), h2, q1)))))"

definition buildFloatArrayCursor where
  "buildFloatArrayCursor = buildArrayCursor models_Float"

definition buildIntegerArrayCursor where
  "buildIntegerArrayCursor = buildArrayCursor models_Integer"

definition buildUnsignedArrayCursor where
  "buildUnsignedArrayCursor = buildArrayCursor models_Unsigned"

definition buildStringArrayCursor where
  "buildStringArrayCursor = buildArrayCursor models_String"

definition buildBooleanArrayCursor where
  "buildBooleanArrayCursor = buildArrayCursor models_Boolean"

subsection \<open>Callers of the iterator\<close>

text \<open>A build request: the value type selects the method, the rest are its arguments.\<close>

record 'o request =
  req_type :: FieldType
  req_name :: bytes
  req_tags :: "(bytes \<times> bytes) list"
  req_field :: string
  req_opt :: "'o IteratorOptions_scheme"

fun build_method where
  "build_method models_Float = buildFloatArrayCursor"
| "build_method models_Integer = buildIntegerArrayCursor"
| "build_method models_Unsigned = buildUnsignedArrayCursor"
| "build_method models_String = buildStringArrayCursor"
| "build_method models_Boolean = buildBooleanArrayCursor"

definition build ::
  "('o, 'e, 'cv, 'kc, 'c, 'x) collaborators \<Rightarrow> 'o request \<Rightarrow>
     'c store \<Rightarrow> 'e arrayCursorIterator \<Rightarrow>
     (addr option \<times> 'x option) \<times> 'c store \<times> 'e arrayCursorIterator" where
  "build env r h q =
     build_method (req_type r) env (req_name r) (req_tags r) (req_field r) (req_opt r) h q"

text \<open>A caller issues build requests one after the other on the same iterator.\<close>

fun builds ::
  "('o, 'e, 'cv, 'kc, 'c, 'x) collaborators \<Rightarrow> 'o request list \<Rightarrow>
     'c store \<Rightarrow> 'e arrayCursorIterator \<Rightarrow>
     (addr option \<times> 'x option) list \<times> 'c store \<times> 'e arrayCursorIterator" where
  "builds env [] h q = ([], h, q)"
| "builds env (r # rs) h q =
     (case build env r h q of
        (res, h1, q1) \<Rightarrow>
          (case builds env rs h1 q1 of (ress, h2, q2) \<Rightarrow> (res # ress, h2, q2)))"

text \<open>The pooled slot for a value type and a direction.\<close>

definition slot :: "'e arrayCursorIterator \<Rightarrow> FieldType \<Rightarrow> bool \<Rightarrow> addr option" where
  "slot q ty asc = get_slot ty (if asc then itr_asc q else itr_desc q)"

text \<open>Every pointer in a slot is the address of an allocated object.\<close>

definition all_types :: "FieldType list" where
  "all_types = [models_Float, models_Integer, models_Unsigned, models_String, models_Boolean]"

definition slots_allocated :: "'c store \<Rightarrow> 'e arrayCursorIterator \<Rightarrow> bool" where
  "slots_allocated h q \<longleftrightarrow>
     list_all (\<lambda>ty. list_all (\<lambda>asc. case slot q ty asc of None \<Rightarrow> True | Some a \<Rightarrow> a < next_addr h)
       [True, False]) all_types"

subsection \<open>Auxiliary notions for the proofs\<close>

text \<open>The iterator with the slot for a value type and a direction pointing to \<open>a\<close>.\<close>

definition populate :: "'e arrayCursorIterator \<Rightarrow> FieldType \<Rightarrow> bool \<Rightarrow> addr \<Rightarrow> 'e arrayCursorIterator" where
  "populate q ty asc a =
     (if asc then q\<lparr>itr_asc := set_slot ty (Some a) (itr_asc q)\<rparr>
      else q\<lparr>itr_desc := set_slot ty (Some a) (itr_desc q)\<rparr>)"

text \<open>The key that a request's build leaves in the key buffer and works with.\<close>

definition new_key ::
  "('o, 'e, 'cv, 'kc, 'c, 'x) collaborators \<Rightarrow> 'e arrayCursorIterator \<Rightarrow> 'o request \<Rightarrow> bytes" where
  "new_key env q r = seriesFieldKeyBytes env (itr_key q) (req_name r) (req_tags r) (req_field r)"

text \<open>
  For a request: the address of the pooled cursor it works on (the slot's pointer, or the
  address the next allocation gets when the slot is \<^verbatim>\<open>nil\<close>), the object there when
  \<^verbatim>\<open>reset\<close> is called, and what that \<^verbatim>\<open>reset\<close> call returns.
\<close>

definition target :: "'c store \<Rightarrow> 'e arrayCursorIterator \<Rightarrow> 'o request \<Rightarrow> addr" where
  "target h q r =
     (case slot q (req_type r) (Ascending (req_opt r)) of None \<Rightarrow> next_addr h | Some a \<Rightarrow> a)"

definition pooled_object ::
  "('o, 'e, 'cv, 'kc, 'c, 'x) collaborators \<Rightarrow> 'c store \<Rightarrow> 'e arrayCursorIterator \<Rightarrow> 'o request \<Rightarrow> 'c" where
  "pooled_object env h q r =
     (case slot q (req_type r) (Ascending (req_opt r)) of
        None \<Rightarrow> newCursor env (req_type r) (Ascending (req_opt r))
      | Some a \<Rightarrow> cell h a)"

definition reset_of ::
  "('o, 'e, 'cv, 'kc, 'c, 'x) collaborators \<Rightarrow> 'c store \<Rightarrow> 'e arrayCursorIterator \<Rightarrow> 'o request \<Rightarrow>
     'c \<times> 'x option" where
  "reset_of env h q r =
     (let key = new_key env q r
      in reset env (req_type r) (Ascending (req_opt r)) (pooled_object env h q r)
           (SeekTime env (req_opt r)) (StopTime env (req_opt r))
           (Cache_Values env (itr_e q) key)
           (KeyCursor env (itr_e q) key (SeekTime env (req_opt r)) (Ascending (req_opt r))))"

text \<open>Whether a request is for a given value type and direction.\<close>

definition is_for :: "'o request \<Rightarrow> FieldType \<Rightarrow> bool \<Rightarrow> bool" where
  "is_for r ty asc \<longleftrightarrow> req_type r = ty \<and> Ascending (req_opt r) = asc"

text \<open>
  Collaborators used to run the model on concrete inputs: cursor objects are numbers,
  a new cursor is 0, \<^verbatim>\<open>reset\<close> stores the seek time's low bits plus one and fails, with
  the error \<open>''read error''\<close>, exactly when the disk cursor it is given is \<open>False\<close>; the
  key is the measurement name followed by a zero byte, and the disk cursor opens exactly
  for keys of a non-empty name.
\<close>

definition test_env :: "(unit, unit, unit, bool, nat, string) collaborators" where
  "test_env =
     \<lparr>seriesFieldKeyBytes = (\<lambda>buf name tags field. name @ [0]),
      Cache_Values = (\<lambda>e key. ()),
      KeyCursor = (\<lambda>e key seek asc. key \<noteq> [0]),
      SeekTime = (\<lambda>opt. 5),
      StopTime = (\<lambda>opt. 9),
      newCursor = (\<lambda>ty asc. 0),
      reset = (\<lambda>ty asc c seek stop cv kc. (Suc (unat seek), if kc then None else Some ''read error''))\<rparr>"

definition empty_slots :: cursorSlots where
  "empty_slots = \<lparr>Float = None, Integer = None, Unsigned = None, String = None, Boolean = None\<rparr>"

definition empty_iterator :: "unit arrayCursorIterator" where
  "empty_iterator = \<lparr>itr_e = (), itr_key = [], itr_asc = empty_slots, itr_desc = empty_slots\<rparr>"

definition empty_store :: "nat store" where
  "empty_store = \<lparr>cell = (\<lambda>_. 0), next_addr = 0\<rparr>"

definition test_request :: "FieldType \<Rightarrow> bool \<Rightarrow> bytes \<Rightarrow> unit request" where
  "test_request ty asc name =
     \<lparr>req_type = ty, req_name = name, req_tags = [], req_field = ''value'',
      req_opt = \<lparr>Ascending = asc\<rparr>\<rparr>"

section \<open>Properties of the values sequences\<close>

lemma length_overlay [simp]: "length (overlay out old) = length old"
  by (induction out old rule: overlay.induct) auto


lemma seq_Write_len [simp]: "len (snd (seq_Write q v)) = len v"
  by (simp add: seq_Write_def split: prod.splits)

lemma seq_Write_cap [simp]: "cap (snd (seq_Write q v)) = cap v"
  by (simp add: seq_Write_def cap_def split: prod.splits)

lemma seq_Write_methods [simp]:
  "Reset_m (fst (seq_Write q v)) = Reset_m q" "Write_m (fst (seq_Write q v)) = Write_m q"
  by (simp_all add: seq_Write_def split: prod.splits)

lemma reslice_ok: "0 \<le> c \<Longrightarrow> c \<le> int (cap s) \<Longrightarrow> reslice s c = Inr (s\<lparr>len := nat c\<rparr>)"
  by (simp add: reslice_def)

lemma cap_len_update [simp]: "cap (s\<lparr>len := k\<rparr>) = cap s"
  by (simp add: cap_def)

lemma tvs_Next_pos:
  assumes "0 < tvs_n s"
    and "min (tvs_n s) (int B) \<le> int (cap (Timestamps (tvs_vals s)))"
    and "min (tvs_n s) (int B) \<le> int (cap (Values (tvs_vals s)))"
  shows "tvs_Next B s = Inr (True, Next_ok B s)"
proof -
  let ?c = "min (tvs_n s) (int B)"
  have c0: "0 \<le> ?c" using assms(1) by simp
  have rt: "reslice (Timestamps (tvs_vals s)) ?c = Inr ((Timestamps (tvs_vals s))\<lparr>len := nat ?c\<rparr>)"
    using c0 assms(2) by (rule reslice_ok)
  have rv: "reslice (Values (tvs_vals s)) ?c = Inr ((Values (tvs_vals s))\<lparr>len := nat ?c\<rparr>)"
    using c0 assms(3) by (rule reslice_ok)
  show ?thesis
    using assms(1) by (simp add: tvs_Next_def Next_ok_def Let_def rt rv split: prod.splits)
qed

lemma tvs_Next_nonpos: "tvs_n s \<le> 0 \<Longrightarrow> tvs_Next B s = Inr (False, s)"
  by (simp add: tvs_Next_def)

lemma caps_New: "caps B (NewTimeValuesSequence B z C ts vs)"
  by (simp add: caps_def NewTimeValuesSequence_def newArrayLen_def make_slice_def cap_def)

lemma caps_Reset: "caps B (tvs_Reset s) = caps B s"
  by (simp add: caps_def tvs_Reset_def Let_def)

lemma caps_Next_ok: "caps B (Next_ok B' s) = caps B s"
  by (simp add: caps_def Next_ok_def Let_def)

lemma tvs_Next_caps:
  assumes "caps B s"
  shows "tvs_Next B s = Inr (0 < tvs_n s, if 0 < tvs_n s then Next_ok B s else s)"
proof (cases "0 < tvs_n s")
  case True
  have "min (tvs_n s) (int B) \<le> int B" by simp
  with assms True show ?thesis
    by (simp add: tvs_Next_pos caps_def)
next
  case False
  then show ?thesis by (simp add: tvs_Next_nonpos)
qed

lemma Next_ok_n: "tvs_n (Next_ok B s) = tvs_n s - min (tvs_n s) (int B)"
  by (simp add: Next_ok_def Let_def)

lemma Next_ok_count: "tvs_count (Next_ok B s) = tvs_count s"
  by (simp add: Next_ok_def Let_def)

lemma Next_ok_len:
  "len (Timestamps (tvs_vals (Next_ok B s))) = nat (min (tvs_n s) (int B))"
  "len (Values (tvs_vals (Next_ok B s))) = nat (min (tvs_n s) (int B))"
  by (simp_all add: Next_ok_def Let_def)

lemma length_elems: "length (elems v) = min (len v) (cap v)"
  by (simp add: elems_def cap_def)

lemma block_Next_ok_lens:
  assumes "caps B s"
  shows "length (fst (block (tvs_vals (Next_ok B s)))) = nat (min (tvs_n s) (int B))"
    and "length (snd (block (tvs_vals (Next_ok B s)))) = nat (min (tvs_n s) (int B))"
proof -
  have "caps B (Next_ok B s)" using assms by (simp add: caps_Next_ok)
  then show "length (fst (block (tvs_vals (Next_ok B s)))) = nat (min (tvs_n s) (int B))"
    and "length (snd (block (tvs_vals (Next_ok B s)))) = nat (min (tvs_n s) (int B))"
    by (simp_all add: block_def length_elems Next_ok_len caps_def)
qed

lemma Next_times_add:
  "Next_times B (a + b) s =
     (case Next_times B a s of
        Inl e \<Rightarrow> Inl e
      | Inr (obs1, s1) \<Rightarrow>
          (case Next_times B b s1 of
             Inl e \<Rightarrow> Inl e
           | Inr (obs2, s2) \<Rightarrow> Inr (obs1 @ obs2, s2)))"
  by (induction a arbitrary: s) (auto split: sum.splits prod.splits)

lemma Next_times_exhausted:
  "tvs_n s \<le> 0 \<Longrightarrow> Next_times B k s = Inr (replicate k (False, block (tvs_Values s)), s)"
  by (induction k) (simp_all add: tvs_Next_nonpos replicate_append_same)

lemma Next_times_full:
  assumes "0 < B"
  shows "caps B s \<Longrightarrow> tvs_n s = int (q * B) + r \<Longrightarrow> 0 \<le> r \<Longrightarrow>
    \<exists>obs s'. Next_times B q s = Inr (obs, s') \<and> caps B s' \<and> tvs_n s' = r \<and>
      map fst obs = replicate q True \<and>
      map (length \<circ> fst \<circ> snd) obs = replicate q B \<and>
      map (length \<circ> snd \<circ> snd) obs = replicate q B"
proof (induction q arbitrary: s)
  case 0
  then show ?case by simp
next
  case (Suc q)
  have split: "int (Suc q * B) = int B + int (q * B)" by simp
  have ge: "int B \<le> tvs_n s"
    using Suc.prems(2,3) unfolding split by linarith
  have pos: "0 < tvs_n s" using ge assms by linarith
  have c: "min (tvs_n s) (int B) = int B" using ge by simp
  let ?s1 = "Next_ok B s"
  have nx: "tvs_Next B s = Inr (True, ?s1)"
    using Suc.prems(1) pos by (simp add: tvs_Next_caps)
  have c1: "caps B ?s1" using Suc.prems(1) by (simp add: caps_Next_ok)
  have n1: "tvs_n ?s1 = int (q * B) + r"
  proof -
    have "tvs_n ?s1 = tvs_n s - int B" by (simp only: Next_ok_n c)
    also have "\<dots> = int (q * B) + r" using Suc.prems(2) unfolding split by linarith
    finally show ?thesis .
  qed
  from Suc.IH [OF c1 n1 Suc.prems(3)] obtain obs s' where
    run: "Next_times B q ?s1 = Inr (obs, s')" and rest: "caps B s'" "tvs_n s' = r"
      "map fst obs = replicate q True"
      "map (length \<circ> fst \<circ> snd) obs = replicate q B"
      "map (length \<circ> snd \<circ> snd) obs = replicate q B"
    by blast
  have "Next_times B (Suc q) s = Inr ((True, block (tvs_Values ?s1)) # obs, s')"
    by (simp add: nx run)
  moreover have "length (fst (block (tvs_Values ?s1))) = B" "length (snd (block (tvs_Values ?s1))) = B"
    using block_Next_ok_lens [OF Suc.prems(1)] c by (simp_all add: tvs_Values_def)
  ultimately show ?case using rest by (simp add: comp_def)
qed

lemma filter_fst_trues:
  "map fst obs = replicate K True @ replicate m False \<Longrightarrow> filter fst obs = take K obs"
proof (induction K arbitrary: obs)
  case 0
  then have "\<forall>x\<in>set obs. \<not> fst x"
    by (metis (no_types, lifting) append_Nil imageI in_set_replicate list.set_map replicate_0)
  then show ?case by simp
next
  case (Suc K)
  then obtain x xs where "obs = x # xs" "fst x" "map fst xs = replicate K True @ replicate m False"
    by (cases obs) auto
  with Suc.IH show ?case by simp
qed

lemma ceiling_div_nat:
  assumes "0 < B" "0 \<le> C"
  shows "nat \<lceil>real_of_int C / real B\<rceil> =
    (if nat C mod B = 0 then nat C div B else nat C div B + 1)"
proof -
  obtain c where C: "C = int c" using assms(2) by (metis nat_0_le)
  have B0: "int B \<noteq> 0" using assms(1) by simp
  have "\<lceil>real_of_int C / real B\<rceil> = \<lceil>real_of_int C / real_of_int (int B)\<rceil>" by simp
  also have "\<dots> = - (- C div int B)" by (rule ceiling_divide_eq_div)
  also have "\<dots> = (if C mod int B = 0 then C div int B else C div int B + 1)"
    using B0 by (simp add: zdiv_zminus1_eq_if)
  finally have "\<lceil>real_of_int C / real B\<rceil> = (if c mod B = 0 then int (c div B) else int (c div B) + 1)"
    unfolding C by (simp add: zdiv_int flip: of_nat_mod)
  then show ?thesis unfolding C by (auto simp: nat_add_distrib)
qed

lemma Next_times_blocks:
  assumes B: "0 < B" and cs: "caps B s" and n0: "0 \<le> tvs_n s"
  defines "q \<equiv> nat (tvs_n s) div B" and "r \<equiv> nat (tvs_n s) mod B"
  defines "K \<equiv> (if r = 0 then q else q + 1)"
  shows "\<exists>obs s'. Next_times B (K + m) s = Inr (obs, s') \<and>
      map fst obs = replicate K True @ replicate m False \<and>
      map (length \<circ> fst \<circ> snd) (take K obs) = replicate q B @ (if r = 0 then [] else [r]) \<and>
      map (length \<circ> snd \<circ> snd) (take K obs) = replicate q B @ (if r = 0 then [] else [r])"
proof -
  have n: "tvs_n s = int (q * B) + int r"
    using n0 unfolding q_def r_def by (metis div_mult_mod_eq int_nat_eq of_nat_add)
  from Next_times_full [OF B cs n] obtain obs1 s1 where
    run1: "Next_times B q s = Inr (obs1, s1)" and c1: "caps B s1" and n1: "tvs_n s1 = int r"
    and o1: "map fst obs1 = replicate q True"
      "map (length \<circ> fst \<circ> snd) obs1 = replicate q B"
      "map (length \<circ> snd \<circ> snd) obs1 = replicate q B"
    by auto
  have l1: "length obs1 = q" using o1(1) by (metis length_map length_replicate)
  show ?thesis
  proof (cases "r = 0")
    case True
    then have K: "K = q" by (simp add: K_def)
    have "Next_times B m s1 = Inr (replicate m (False, block (tvs_Values s1)), s1)"
      using n1 True by (simp add: Next_times_exhausted)
    then have "Next_times B (K + m) s = Inr (obs1 @ replicate m (False, block (tvs_Values s1)), s1)"
      unfolding K by (simp add: Next_times_add run1)
    then show ?thesis using o1 l1 True K by simp
  next
    case False
    then have K: "K = q + 1" by (simp add: K_def)
    have rB: "r < B" unfolding r_def using B by simp
    have "int r \<le> int B" using rB by simp
    then have c: "min (tvs_n s1) (int B) = int r" unfolding n1 by (rule min_absorb1)
    let ?s2 = "Next_ok B s1"
    have nx: "tvs_Next B s1 = Inr (True, ?s2)"
      using c1 n1 False by (simp add: tvs_Next_caps)
    have n2: "tvs_n ?s2 = 0" unfolding Next_ok_n c by (simp add: n1)
    have lens: "length (fst (block (tvs_Values ?s2))) = r" "length (snd (block (tvs_Values ?s2))) = r"
      using block_Next_ok_lens [OF c1] c by (simp_all add: tvs_Values_def)
    have rest: "Next_times B m ?s2 = Inr (replicate m (False, block (tvs_Values ?s2)), ?s2)"
      using n2 by (simp add: Next_times_exhausted)
    have "Next_times B (Suc m) s1 =
        Inr ((True, block (tvs_Values ?s2)) # replicate m (False, block (tvs_Values ?s2)), ?s2)"
      by (simp add: nx rest)
    then have "Next_times B (q + Suc m) s =
        Inr (obs1 @ (True, block (tvs_Values ?s2)) # replicate m (False, block (tvs_Values ?s2)), ?s2)"
      by (simp only: Next_times_add run1 sum.case prod.case)
    moreover have "K + m = q + Suc m" using K by simp
    ultimately have run: "Next_times B (K + m) s =
        Inr (obs1 @ (True, block (tvs_Values ?s2)) # replicate m (False, block (tvs_Values ?s2)), ?s2)"
      by (simp only:)
    let ?obs = "obs1 @ (True, block (tvs_Values ?s2)) # replicate m (False, block (tvs_Values ?s2))"
    have rK: "replicate K True = replicate q True @ [True]"
      unfolding K by (simp add: replicate_append_same)
    have f: "map fst ?obs = replicate K True @ replicate m False"
      unfolding rK using o1(1) by simp
    have tk: "take K ?obs = obs1 @ [(True, block (tvs_Values ?s2))]"
      unfolding K using l1 by simp
    have "map (length \<circ> fst \<circ> snd) (take K ?obs) = replicate q B @ [r]"
      "map (length \<circ> snd \<circ> snd) (take K ?obs) = replicate q B @ [r]"
      unfolding tk using o1(2,3) lens by simp_all
    with run f False show ?thesis by simp
  qed
qed

text \<open>
  Claim C1.  A sequence constructed with count \<open>C \<ge> 0\<close> and block-size bound \<open>B > 0\<close>
  answers \<open>true\<close> to exactly the first \<open>\<lceil>C / B\<rceil>\<close> calls of \<^verbatim>\<open>Next()\<close> and \<open>false\<close> to
  every later one; the blocks emitted by the true-returning calls have lengths
  \<open>B, ..., B\<close> followed by \<open>C mod B\<close> when \<open>B\<close> does not divide \<open>C\<close>, and these lengths sum
  to \<open>C\<close>.  Both halves of the typed array have these lengths.
\<close>

theorem sequence_block_arithmetic:
  assumes "0 < B" and "0 \<le> C"
  shows "\<exists>obs s'.
      Next_times B (nat \<lceil>real_of_int C / real B\<rceil> + m) (NewTimeValuesSequence B z C ts vs) = Inr (obs, s') \<and>
      map fst obs = replicate (nat \<lceil>real_of_int C / real B\<rceil>) True @ replicate m False \<and>
      length (filter fst obs) = nat \<lceil>real_of_int C / real B\<rceil> \<and>
      map (length \<circ> fst \<circ> snd) (filter fst obs) =
        replicate (nat C div B) B @ (if nat C mod B = 0 then [] else [nat C mod B]) \<and>
      map (length \<circ> snd \<circ> snd) (filter fst obs) =
        replicate (nat C div B) B @ (if nat C mod B = 0 then [] else [nat C mod B]) \<and>
      sum_list (map (length \<circ> fst \<circ> snd) (filter fst obs)) = nat C \<and>
      sum_list (map (length \<circ> snd \<circ> snd) (filter fst obs)) = nat C"
proof -
  let ?s = "NewTimeValuesSequence B z C ts vs"
  let ?K = "nat \<lceil>real_of_int C / real B\<rceil>"
  let ?L = "replicate (nat C div B) B @ (if nat C mod B = 0 then [] else [nat C mod B])"
  have n: "tvs_n ?s = C" by (simp add: NewTimeValuesSequence_def)
  have K: "?K = (if nat C mod B = 0 then nat C div B else nat C div B + 1)"
    using assms by (rule ceiling_div_nat)
  have n0: "0 \<le> tvs_n ?s" using assms(2) n by simp
  from Next_times_blocks [OF assms(1) caps_New n0, where m = m]
  obtain obs s' where run: "Next_times B (?K + m) ?s = Inr (obs, s')"
    and f: "map fst obs = replicate ?K True @ replicate m False"
    and lt: "map (length \<circ> fst \<circ> snd) (take ?K obs) = ?L"
    and lv: "map (length \<circ> snd \<circ> snd) (take ?K obs) = ?L"
    unfolding n K by auto
  have flt: "filter fst obs = take ?K obs" using f by (rule filter_fst_trues)
  have "length obs = ?K + m" using f by (metis length_append length_map length_replicate)
  then have lenK: "length (filter fst obs) = ?K" unfolding flt by simp
  have dm: "nat C div B * B + nat C mod B = nat C" by (rule div_mult_mod_eq)
  have sum: "sum_list ?L = nat C"
  proof (cases "nat C mod B = 0")
    case True
    with dm have "nat C div B * B = nat C" by linarith
    with True show ?thesis by (simp add: sum_list_replicate)
  next
    case False
    with dm show ?thesis by (simp add: sum_list_replicate)
  qed
  have lt': "map (length \<circ> fst \<circ> snd) (filter fst obs) = ?L" by (simp only: flt lt)
  have lv': "map (length \<circ> snd \<circ> snd) (filter fst obs) = ?L" by (simp only: flt lv)
  have st: "sum_list (map (length \<circ> fst \<circ> snd) (filter fst obs)) = nat C" by (simp only: lt' sum)
  have sv: "sum_list (map (length \<circ> snd \<circ> snd) (filter fst obs)) = nat C" by (simp only: lv' sum)
  show ?thesis
    using run f lenK lt' lv' st sv by blast
qed

text \<open>The scenario of the specification: count 250, bound 100.\<close>

theorem sequence_block_arithmetic_witness:
  "\<exists>obs s'.
      Next_times 100 4 (NewTimeValuesSequence 100 (0::int) 250 counting_ts (constant_vs 7)) = Inr (obs, s') \<and>
      map fst obs = [True, True, True, False] \<and>
      length (filter fst obs) = 3 \<and>
      map (length \<circ> fst \<circ> snd) (filter fst obs) = [100, 100, 50] \<and>
      map (length \<circ> snd \<circ> snd) (filter fst obs) = [100, 100, 50] \<and>
      sum_list (map (length \<circ> fst \<circ> snd) (filter fst obs)) = 250 \<and>
      sum_list (map (length \<circ> snd \<circ> snd) (filter fst obs)) = 250"
proof -
  have B: "0 < (100::nat)" and C: "(0::int) \<le> 250" by simp_all
  have K: "nat \<lceil>real_of_int 250 / real 100\<rceil> + 1 = 4" by simp
  have r3: "replicate 2 (100::nat) = [100, 100]" "replicate 3 True = [True, True, True]"
    "replicate 1 False = [False]"
    by (simp_all add: numeral_2_eq_2 numeral_3_eq_3)
  show ?thesis
    using sequence_block_arithmetic [OF B C, of 1 "0::int" counting_ts "constant_vs 7"]
    unfolding K by (simp add: r3)
qed

lemma reachable_caps: "reachable B z C ts vs s \<Longrightarrow> caps B s"
proof (induction rule: reachable.induct)
  case reach_New
  show ?case by (rule caps_New)
next
  case (reach_Reset s)
  then show ?case by (simp add: caps_Reset)
next
  case (reach_Next s r s')
  then show ?case by (auto simp: tvs_Next_caps caps_Next_ok split: if_splits)
qed

lemma Next_ok_write:
  "(tvs_ts (Next_ok B s), Timestamps (tvs_vals (Next_ok B s))) =
     seq_Write (tvs_ts s) ((Timestamps (tvs_vals s))\<lparr>len := nat (min (tvs_n s) (int B))\<rparr>)"
  "(tvs_vs (Next_ok B s), Values (tvs_vals (Next_ok B s))) =
     seq_Write (tvs_vs s) ((Values (tvs_vals s))\<lparr>len := nat (min (tvs_n s) (int B))\<rparr>)"
  by (simp_all add: Next_ok_def Let_def)

text \<open>
  Claim C2.  In every state a sequence can reach, if the remaining count \<open>n\<close> is positive
  then \<^verbatim>\<open>Next()\<close> returns \<open>true\<close>; with \<open>c = min n B\<close> it leaves the remaining count at
  \<open>n - c\<close>, both halves of the typed array at logical length \<open>c\<close>, and each half and its
  generator as the generator's \<^verbatim>\<open>Write\<close> on the half resliced to \<open>c\<close> leaves them.
\<close>

theorem next_emits_block:
  assumes "reachable B z C ts vs s" and "0 < tvs_n s"
  shows "\<exists>s'. tvs_Next B s = Inr (True, s') \<and>
      tvs_n s' = tvs_n s - min (tvs_n s) (int B) \<and>
      len (Timestamps (tvs_vals s')) = nat (min (tvs_n s) (int B)) \<and>
      len (Values (tvs_vals s')) = nat (min (tvs_n s) (int B)) \<and>
      length (fst (block (tvs_Values s'))) = nat (min (tvs_n s) (int B)) \<and>
      length (snd (block (tvs_Values s'))) = nat (min (tvs_n s) (int B)) \<and>
      (tvs_ts s', Timestamps (tvs_vals s')) =
        seq_Write (tvs_ts s) ((Timestamps (tvs_vals s))\<lparr>len := nat (min (tvs_n s) (int B))\<rparr>) \<and>
      (tvs_vs s', Values (tvs_vals s')) =
        seq_Write (tvs_vs s) ((Values (tvs_vals s))\<lparr>len := nat (min (tvs_n s) (int B))\<rparr>) \<and>
      tvs_count s' = tvs_count s"
proof -
  have cs: "caps B s" using assms(1) by (rule reachable_caps)
  have nx: "tvs_Next B s = Inr (True, Next_ok B s)"
    using cs assms(2) by (simp add: tvs_Next_caps)
  show ?thesis
    using nx Next_ok_n [of B s] Next_ok_len [of B s] block_Next_ok_lens [OF cs]
      Next_ok_write [of B s] Next_ok_count [of B s]
    by (simp add: tvs_Values_def)
qed

text \<open>The first block of the scenario with count 250 and bound 100.\<close>

theorem next_emits_block_witness:
  "\<exists>s'. tvs_Next 100 (NewTimeValuesSequence 100 (0::int) 250 counting_ts (constant_vs 7)) = Inr (True, s') \<and>
      tvs_n s' = 150 \<and>
      len (Timestamps (tvs_vals s')) = 100 \<and>
      len (Values (tvs_vals s')) = 100 \<and>
      length (fst (block (tvs_Values s'))) = 100 \<and>
      length (snd (block (tvs_Values s'))) = 100 \<and>
      tvs_count s' = 250"
proof -
  let ?s = "NewTimeValuesSequence 100 (0::int) 250 counting_ts (constant_vs 7)"
  have r: "reachable 100 0 250 counting_ts (constant_vs 7) ?s" by (rule reach_New)
  have n: "tvs_n ?s = 250" "tvs_count ?s = 250" by (simp_all add: NewTimeValuesSequence_def)
  have p: "0 < tvs_n ?s" by (simp add: n)
  show ?thesis
    using next_emits_block [OF r p] unfolding n by auto
qed

lemma tvs_call_exhausted:
  assumes "tvs_n s \<le> 0" and "x \<noteq> Op_Reset"
  shows "tvs_call B ft x s =
    Inr (case x of Op_Reset \<Rightarrow> Res_Reset | Op_Next \<Rightarrow> Res_Next False
         | Op_Values \<Rightarrow> Res_Values (block (tvs_Values s)) | Op_ValueType \<Rightarrow> Res_ValueType ft, s)"
  using assms by (cases x) (simp_all add: tvs_Next_nonpos tvs_ValueType_def)

lemma tvs_calls_exhausted:
  assumes "tvs_n s \<le> 0" and "Op_Reset \<notin> set ops"
  shows "tvs_calls B ft ops s =
    Inr (map (\<lambda>x. case x of Op_Reset \<Rightarrow> Res_Reset | Op_Next \<Rightarrow> Res_Next False
         | Op_Values \<Rightarrow> Res_Values (block (tvs_Values s)) | Op_ValueType \<Rightarrow> Res_ValueType ft) ops, s)"
  using assms(2)
proof (induction ops)
  case Nil
  show ?case by simp
next
  case (Cons x xs)
  then have "x \<noteq> Op_Reset" and "Op_Reset \<notin> set xs" by auto
  then show ?case using Cons.IH by (simp add: tvs_call_exhausted [OF assms(1)])
qed

text \<open>
  Claim C3.  When the remaining count is zero (or below), \<^verbatim>\<open>Next()\<close> returns \<open>false\<close> and
  leaves the state as it is, any number of times; no run of operations other than
  \<^verbatim>\<open>Reset()\<close> changes the state, and every \<^verbatim>\<open>Next()\<close> in it returns \<open>false\<close>.
\<close>

theorem exhausted_is_terminal:
  assumes "tvs_n s \<le> 0" and "Op_Reset \<notin> set ops"
  shows "tvs_Next B s = Inr (False, s) \<and>
    Next_times B k s = Inr (replicate k (False, block (tvs_Values s)), s) \<and>
    tvs_calls B ft ops s =
      Inr (map (\<lambda>x. case x of Op_Reset \<Rightarrow> Res_Reset | Op_Next \<Rightarrow> Res_Next False
             | Op_Values \<Rightarrow> Res_Values (block (tvs_Values s))
             | Op_ValueType \<Rightarrow> Res_ValueType ft) ops, s)"
  using assms by (simp add: tvs_Next_nonpos Next_times_exhausted tvs_calls_exhausted)

lemma tvs_Next_True:
  assumes "tvs_Next B s0 = Inr (True, s)"
  shows "0 < tvs_n s0" and "s = Next_ok B s0"
    and "nat (min (tvs_n s0) (int B)) \<le> cap (Timestamps (tvs_vals s0))"
    and "nat (min (tvs_n s0) (int B)) \<le> cap (Values (tvs_vals s0))"
proof -
  show pos: "0 < tvs_n s0"
    using assms by (cases "0 < tvs_n s0") (simp_all add: tvs_Next_def)
  have ct: "min (tvs_n s0) (int B) \<le> int (cap (Timestamps (tvs_vals s0)))"
    using assms pos by (auto simp: tvs_Next_def reslice_def Let_def split: if_splits)
  have cv: "min (tvs_n s0) (int B) \<le> int (cap (Values (tvs_vals s0)))"
    using assms pos by (auto simp: tvs_Next_def reslice_def Let_def split: if_splits sum.splits)
  show "s = Next_ok B s0" using assms tvs_Next_pos [OF pos ct cv] by simp
  show "nat (min (tvs_n s0) (int B)) \<le> cap (Timestamps (tvs_vals s0))" using ct by linarith
  show "nat (min (tvs_n s0) (int B)) \<le> cap (Values (tvs_vals s0))" using cv by linarith
qed

lemmas run_defs = Next_ok_def NewTimeValuesSequence_def newArrayLen_def make_slice_def
  seq_Write_def seq_Reset_def tvs_Reset_def counting_ts_def constant_vs_def elems_def block_def
  tvs_Values_def tvs_ValueType_def Let_def

text \<open>The exhausted state after the only block of a sequence with count 2 and bound 2.\<close>

theorem exhausted_is_terminal_witness:
  "tvs_calls 2 models_Float [Op_Next, Op_Values, Op_Next, Op_ValueType]
      (Next_ok 2 (NewTimeValuesSequence 2 (0::int) 2 counting_ts (constant_vs 7))) =
    Inr ([Res_Next False, Res_Values ([0, 1], [7, 7]), Res_Next False, Res_ValueType models_Float],
         Next_ok 2 (NewTimeValuesSequence 2 (0::int) 2 counting_ts (constant_vs 7)))"
proof -
  let ?s = "Next_ok 2 (NewTimeValuesSequence 2 (0::int) 2 counting_ts (constant_vs 7))"
  have n: "tvs_n ?s \<le> 0" by (simp add: Next_ok_n NewTimeValuesSequence_def)
  have o: "Op_Reset \<notin> set [Op_Next, Op_Values, Op_Next, Op_ValueType]" by simp
  have b: "block (tvs_Values ?s) = ([0, 1], [7, 7])"
    by (simp add: run_defs numeral_2_eq_2 upt_rec)
  from exhausted_is_terminal [OF n o, of 2 0 models_Float]
  have e: "tvs_calls 2 models_Float [Op_Next, Op_Values, Op_Next, Op_ValueType] ?s =
      Inr (map (\<lambda>x. case x of Op_Reset \<Rightarrow> Res_Reset | Op_Next \<Rightarrow> Res_Next False
             | Op_Values \<Rightarrow> Res_Values (block (tvs_Values ?s))
             | Op_ValueType \<Rightarrow> Res_ValueType models_Float)
           [Op_Next, Op_Values, Op_Next, Op_ValueType], ?s)"
    by (elim conjE)
  show ?thesis unfolding e b by simp
qed

lemma reachable_lens:
  "reachable B z C ts vs s \<Longrightarrow>
    len (Timestamps (tvs_vals s)) = len (Values (tvs_vals s)) \<and> len (Timestamps (tvs_vals s)) \<le> B"
proof (induction rule: reachable.induct)
  case reach_New
  show ?case by (simp add: NewTimeValuesSequence_def newArrayLen_def make_slice_def)
next
  case (reach_Reset s)
  then show ?case by (simp add: tvs_Reset_def Let_def)
next
  case (reach_Next s r s')
  have cs: "caps B s" using reach_Next.hyps(1) by (rule reachable_caps)
  show ?case
  proof (cases "0 < tvs_n s")
    case True
    then have "s' = Next_ok B s" using reach_Next.hyps(2) cs by (simp add: tvs_Next_caps)
    then show ?thesis by (simp add: Next_ok_len)
  next
    case False
    then have "s' = s" using reach_Next.hyps(2) by (simp add: tvs_Next_nonpos)
    then show ?thesis using reach_Next.IH by simp
  qed
qed

text \<open>
  Claim C7.  After construction, \<^verbatim>\<open>Reset()\<close> and any number of \<^verbatim>\<open>Next()\<close> calls the two
  halves of the typed array have the same logical length, which is at most \<open>B\<close>; the
  same holds of the blocks a reader sees, and \<^verbatim>\<open>Next()\<close> does not panic.
\<close>

theorem typed_array_lengths:
  assumes "reachable B z C ts vs s"
  shows "len (Timestamps (tvs_vals s)) = len (Values (tvs_vals s)) \<and>
    len (Timestamps (tvs_vals s)) \<le> B \<and>
    length (fst (block (tvs_Values s))) = length (snd (block (tvs_Values s))) \<and>
    length (fst (block (tvs_Values s))) \<le> B \<and>
    (\<exists>r s'. tvs_Next B s = Inr (r, s'))"
proof -
  have cs: "caps B s" using assms by (rule reachable_caps)
  have l: "len (Timestamps (tvs_vals s)) = len (Values (tvs_vals s))"
    "len (Timestamps (tvs_vals s)) \<le> B"
    using reachable_lens [OF assms] by simp_all
  have b: "length (fst (block (tvs_Values s))) = len (Timestamps (tvs_vals s))"
    "length (snd (block (tvs_Values s))) = len (Values (tvs_vals s))"
    using cs l by (simp_all add: block_def tvs_Values_def length_elems caps_def)
  show ?thesis using l b by (simp add: tvs_Next_caps [OF cs])
qed

text \<open>Count 3 and bound 2: the state after the second block, of length 1.\<close>

theorem typed_array_lengths_witness:
  "len (Timestamps (tvs_vals (Next_ok 2 (Next_ok 2 (NewTimeValuesSequence 2 (0::int) 3 counting_ts (constant_vs 7)))))) = 1 \<and>
   len (Values (tvs_vals (Next_ok 2 (Next_ok 2 (NewTimeValuesSequence 2 (0::int) 3 counting_ts (constant_vs 7)))))) = 1 \<and>
   block (tvs_Values (Next_ok 2 (Next_ok 2 (NewTimeValuesSequence 2 (0::int) 3 counting_ts (constant_vs 7))))) = ([2], [7])"
proof -
  let ?s0 = "NewTimeValuesSequence 2 (0::int) 3 counting_ts (constant_vs 7)"
  have r0: "reachable 2 0 3 counting_ts (constant_vs 7) ?s0" by (rule reach_New)
  have p0: "0 < tvs_n ?s0" by (simp add: NewTimeValuesSequence_def)
  have n1: "tvs_Next 2 ?s0 = Inr (True, Next_ok 2 ?s0)"
    by (simp only: tvs_Next_caps [OF caps_New] p0 if_True)
  have r1: "reachable 2 0 3 counting_ts (constant_vs 7) (Next_ok 2 ?s0)"
    using r0 n1 by (rule reach_Next)
  have c1: "caps 2 (Next_ok 2 ?s0)" by (simp only: caps_Next_ok caps_New)
  have p1: "0 < tvs_n (Next_ok 2 ?s0)" by (simp add: Next_ok_n NewTimeValuesSequence_def)
  have n2: "tvs_Next 2 (Next_ok 2 ?s0) = Inr (True, Next_ok 2 (Next_ok 2 ?s0))"
    by (simp only: tvs_Next_caps [OF c1] p1 if_True)
  have r2: "reachable 2 0 3 counting_ts (constant_vs 7) (Next_ok 2 (Next_ok 2 ?s0))"
    using r1 n2 by (rule reach_Next)
  have l: "len (Timestamps (tvs_vals (Next_ok 2 (Next_ok 2 ?s0)))) = 1"
    by (simp add: Next_ok_len Next_ok_n NewTimeValuesSequence_def)
  have b: "block (tvs_Values (Next_ok 2 (Next_ok 2 ?s0))) = ([2], [7])"
    by (simp add: run_defs numeral_2_eq_2 upt_rec)
  show ?thesis using typed_array_lengths [OF r2] l b by simp
qed

text \<open>
  Claim C8.  Let a \<^verbatim>\<open>Next()\<close> return \<open>true\<close> and leave the remaining count at zero.  After
  any further calls other than \<^verbatim>\<open>Reset()\<close>, \<^verbatim>\<open>Values()\<close> returns (without failing) the block
  as that \<^verbatim>\<open>Next()\<close> left it: the halves that the two \<^verbatim>\<open>Write\<close> calls filled, of the
  positive length that was remaining before the call.
\<close>

theorem values_after_exhaustion:
  assumes "tvs_Next B s0 = Inr (True, s)" and "tvs_n s \<le> 0" and "Op_Reset \<notin> set ops"
  shows "(\<exists>rs. tvs_calls B ft (ops @ [Op_Values]) s = Inr (rs @ [Res_Values (block (tvs_Values s))], s)) \<and>
    (tvs_ts s, Timestamps (tvs_Values s)) =
      seq_Write (tvs_ts s0) ((Timestamps (tvs_vals s0))\<lparr>len := nat (tvs_n s0)\<rparr>) \<and>
    (tvs_vs s, Values (tvs_Values s)) =
      seq_Write (tvs_vs s0) ((Values (tvs_vals s0))\<lparr>len := nat (tvs_n s0)\<rparr>) \<and>
    length (fst (block (tvs_Values s))) = nat (tvs_n s0) \<and>
    length (snd (block (tvs_Values s))) = nat (tvs_n s0) \<and>
    0 < nat (tvs_n s0)"
proof -
  note t = tvs_Next_True [OF assms(1)]
  have n: "tvs_n s = tvs_n s0 - min (tvs_n s0) (int B)"
    unfolding t(2) by (rule Next_ok_n)
  have c: "min (tvs_n s0) (int B) = tvs_n s0"
    using n assms(2) t(1) by linarith
  have o: "Op_Reset \<notin> set (ops @ [Op_Values])" using assms(3) by simp
  have run: "\<exists>rs. tvs_calls B ft (ops @ [Op_Values]) s = Inr (rs @ [Res_Values (block (tvs_Values s))], s)"
    unfolding tvs_calls_exhausted [OF assms(2) o] by simp
  have w: "(tvs_ts s, Timestamps (tvs_Values s)) =
      seq_Write (tvs_ts s0) ((Timestamps (tvs_vals s0))\<lparr>len := nat (tvs_n s0)\<rparr>)"
    "(tvs_vs s, Values (tvs_Values s)) =
      seq_Write (tvs_vs s0) ((Values (tvs_vals s0))\<lparr>len := nat (tvs_n s0)\<rparr>)"
    using Next_ok_write [of B s0] unfolding t(2) c tvs_Values_def by simp_all
  have l: "len (Timestamps (tvs_vals s)) = nat (tvs_n s0)" "len (Values (tvs_vals s)) = nat (tvs_n s0)"
    using Next_ok_len [of B s0] unfolding t(2) c by simp_all
  have k: "cap (Timestamps (tvs_vals s)) = cap (Timestamps (tvs_vals s0))"
    "cap (Values (tvs_vals s)) = cap (Values (tvs_vals s0))"
    unfolding t(2) by (simp_all add: Next_ok_def Let_def)
  have b: "length (fst (block (tvs_Values s))) = nat (tvs_n s0)"
    "length (snd (block (tvs_Values s))) = nat (tvs_n s0)"
    using t(3,4) unfolding c by (simp_all add: block_def tvs_Values_def length_elems l k)
  show ?thesis using run w b t(1) by simp
qed

text \<open>Count 2, bound 2: two more \<^verbatim>\<open>Next()\<close> calls on the exhausted sequence, then \<^verbatim>\<open>Values()\<close>.\<close>

theorem values_after_exhaustion_witness:
  "tvs_calls 2 models_Float [Op_Next, Op_Next, Op_Values]
      (Next_ok 2 (NewTimeValuesSequence 2 (0::int) 2 counting_ts (constant_vs 7))) =
    Inr ([Res_Next False, Res_Next False, Res_Values ([0, 1], [7, 7])],
         Next_ok 2 (NewTimeValuesSequence 2 (0::int) 2 counting_ts (constant_vs 7)))"
proof -
  let ?init = "NewTimeValuesSequence 2 (0::int) 2 counting_ts (constant_vs 7)"
  let ?fin = "Next_ok 2 ?init"
  have p0: "0 < tvs_n ?init" by (simp add: NewTimeValuesSequence_def)
  have nx: "tvs_Next 2 ?init = Inr (True, ?fin)"
    by (simp only: tvs_Next_caps [OF caps_New] p0 if_True)
  have n: "tvs_n ?fin \<le> 0" by (simp add: Next_ok_n NewTimeValuesSequence_def)
  have o: "Op_Reset \<notin> set [Op_Next, Op_Next]" by simp
  have b: "block (tvs_Values ?fin) = ([0, 1], [7, 7])"
    by (simp add: run_defs numeral_2_eq_2 upt_rec)
  from values_after_exhaustion [OF nx n o, of models_Float]
  obtain rs where e: "tvs_calls 2 models_Float ([Op_Next, Op_Next] @ [Op_Values]) ?fin =
      Inr (rs @ [Res_Values (block (tvs_Values ?fin))], ?fin)"
    by blast
  show ?thesis using e unfolding b by (simp add: tvs_Next_nonpos [OF n])
qed

lemma reachable_count: "reachable B z C ts vs s \<Longrightarrow> tvs_count s = C"
proof (induction rule: reachable.induct)
  case reach_New
  show ?case by (simp add: NewTimeValuesSequence_def)
next
  case (reach_Reset s)
  then show ?case by (simp add: tvs_Reset_def Let_def)
next
  case (reach_Next s r s')
  have "caps B s" using reach_Next.hyps(1) by (rule reachable_caps)
  then show ?case using reach_Next.hyps(2) reach_Next.IH
    by (auto simp: tvs_Next_caps Next_ok_count split: if_splits)
qed

lemma reachable_nonpos:
  assumes "C \<le> 0"
  shows "reachable B z C ts vs s \<Longrightarrow> tvs_n s = C \<and> tvs_vals s = newArrayLen z B"
proof (induction rule: reachable.induct)
  case reach_New
  show ?case by (simp add: NewTimeValuesSequence_def)
next
  case (reach_Reset s)
  then show ?case using reachable_count [OF reach_Reset.hyps] by (simp add: tvs_Reset_def Let_def)
next
  case (reach_Next s r s')
  then have "tvs_n s \<le> 0" using assms by simp
  then have "s' = s" using reach_Next.hyps(2) by (simp add: tvs_Next_nonpos)
  then show ?case using reach_Next.IH by simp
qed

text \<open>
  Claim C9.  A sequence constructed with a count \<open>C \<le> 0\<close> answers \<open>false\<close> to its first
  \<^verbatim>\<open>Next()\<close> and to every \<^verbatim>\<open>Next()\<close> in every state it can reach, also after \<^verbatim>\<open>Reset()\<close>;
  its typed array stays the one the constructor allocated, so no block is ever emitted.
\<close>

theorem nonpositive_count_born_exhausted:
  assumes "C \<le> 0" and "reachable B z C ts vs s"
  shows "tvs_Next B (NewTimeValuesSequence B z C ts vs) = Inr (False, NewTimeValuesSequence B z C ts vs) \<and>
    tvs_Next B s = Inr (False, s) \<and>
    tvs_Next B (tvs_Reset s) = Inr (False, tvs_Reset s) \<and>
    Next_times B k s = Inr (replicate k (False, block (newArrayLen z B)), s) \<and>
    tvs_n s = C \<and> tvs_vals s = newArrayLen z B"
proof -
  have a: "tvs_n (NewTimeValuesSequence B z C ts vs) \<le> 0"
    using assms(1) by (simp add: NewTimeValuesSequence_def)
  have b: "tvs_n s = C" "tvs_vals s = newArrayLen z B"
    using reachable_nonpos [OF assms] by simp_all
  have "reachable B z C ts vs (tvs_Reset s)" using assms(2) by (rule reach_Reset)
  from reachable_nonpos [OF assms(1) this] have c: "tvs_n (tvs_Reset s) \<le> 0" using assms(1) by simp
  have d: "tvs_n s \<le> 0" using b assms(1) by simp
  show ?thesis
    using b by (simp add: tvs_Next_nonpos [OF a] tvs_Next_nonpos [OF c] tvs_Next_nonpos [OF d]
        Next_times_exhausted [OF d] tvs_Values_def)
qed

text \<open>Count \<open>-5\<close>: the sequence after a \<^verbatim>\<open>Reset()\<close>.\<close>

theorem nonpositive_count_born_exhausted_witness:
  "tvs_Next 2 (tvs_Reset (NewTimeValuesSequence 2 (0::int) (- 5) counting_ts (constant_vs 7))) =
     Inr (False, tvs_Reset (NewTimeValuesSequence 2 (0::int) (- 5) counting_ts (constant_vs 7))) \<and>
   Next_times 2 2 (tvs_Reset (NewTimeValuesSequence 2 (0::int) (- 5) counting_ts (constant_vs 7))) =
     Inr ([(False, [0, 0], [0, 0]), (False, [0, 0], [0, 0])],
          tvs_Reset (NewTimeValuesSequence 2 (0::int) (- 5) counting_ts (constant_vs 7)))"
proof -
  let ?init = "NewTimeValuesSequence 2 (0::int) (- 5) counting_ts (constant_vs 7)"
  have C: "(- 5::int) \<le> 0" by simp
  have r: "reachable 2 0 (- 5) counting_ts (constant_vs 7) (tvs_Reset ?init)"
    by (rule reach_Reset) (rule reach_New)
  have b: "block (newArrayLen (0::int) 2) = ([0, 0], [0, 0])"
    by (simp add: run_defs numeral_2_eq_2)
  from nonpositive_count_born_exhausted [OF C r, of 2]
  have "tvs_Next 2 (tvs_Reset ?init) = Inr (False, tvs_Reset ?init)"
    and "Next_times 2 2 (tvs_Reset ?init) = Inr (replicate 2 (False, block (newArrayLen (0::int) 2)), tvs_Reset ?init)"
    by blast+
  then show ?thesis unfolding b by (simp add: numeral_2_eq_2)
qed

























section \<open>Properties of the array cursor iterator\<close>

lemma build_method_eq: "build_method ty = buildArrayCursor ty"
  by (cases ty) (simp_all add: buildFloatArrayCursor_def buildIntegerArrayCursor_def
      buildUnsignedArrayCursor_def buildStringArrayCursor_def buildBooleanArrayCursor_def)

lemma get_set_slot [simp]:
  "get_slot ty (set_slot ty' p sl) = (if ty = ty' then p else get_slot ty sl)"
  by (cases ty; cases ty') simp_all

lemma slot_populate:
  "slot (populate q ty d a) ty' d' = (if ty' = ty \<and> d' = d then Some a else slot q ty' d')"
  by (cases ty; cases ty') (auto simp: slot_def populate_def)

lemma itr_e_populate [simp]: "itr_e (populate q ty d a) = itr_e q"
  by (simp add: populate_def)

lemma slot_key_update [simp]: "slot (q\<lparr>itr_key := k\<rparr>) ty d = slot q ty d"
  by (simp add: slot_def)

lemma itr_key_populate [simp]: "itr_key (populate q ty d a) = itr_key q"
  by (simp add: populate_def)

lemma build_eq:
  "build env r h q =
     ((case snd (reset_of env h q r) of
         Some e \<Rightarrow> (None, Some e)
       | None \<Rightarrow> (Some (target h q r), None)),
      \<lparr>cell = (cell h)(target h q r := fst (reset_of env h q r)),
        next_addr = (case slot q (req_type r) (Ascending (req_opt r)) of
                 None \<Rightarrow> Suc (next_addr h) | Some a \<Rightarrow> next_addr h)\<rparr>,
      (case slot q (req_type r) (Ascending (req_opt r)) of
         None \<Rightarrow> populate (q\<lparr>itr_key := new_key env q r\<rparr>)
                   (req_type r) (Ascending (req_opt r)) (next_addr h)
       | Some a \<Rightarrow> q\<lparr>itr_key := new_key env q r\<rparr>))"
proof (cases "Ascending (req_opt r)")
  case True
  show ?thesis
  proof (cases "get_slot (req_type r) (itr_asc q)")
    case None
    then show ?thesis using True
      by (simp add: build_def build_method_eq buildArrayCursor_def call_seriesFieldKeyBytes_def
          Let_def alloc_def call_reset_def reset_of_def new_key_def target_def pooled_object_def
          slot_def populate_def split: prod.splits option.splits)
  next
    case (Some a)
    then show ?thesis using True
      by (simp add: build_def build_method_eq buildArrayCursor_def call_seriesFieldKeyBytes_def
          Let_def alloc_def call_reset_def reset_of_def new_key_def target_def pooled_object_def
          slot_def populate_def split: prod.splits option.splits)
  qed
next
  case False
  show ?thesis
  proof (cases "get_slot (req_type r) (itr_desc q)")
    case None
    then show ?thesis using False
      by (simp add: build_def build_method_eq buildArrayCursor_def call_seriesFieldKeyBytes_def
          Let_def alloc_def call_reset_def reset_of_def new_key_def target_def pooled_object_def
          slot_def populate_def split: prod.splits option.splits)
  next
    case (Some a)
    then show ?thesis using False
      by (simp add: build_def build_method_eq buildArrayCursor_def call_seriesFieldKeyBytes_def
          Let_def alloc_def call_reset_def reset_of_def new_key_def target_def pooled_object_def
          slot_def populate_def split: prod.splits option.splits)
  qed
qed

lemma slots_allocated_iff:
  "slots_allocated h q \<longleftrightarrow> (\<forall>ty d a. slot q ty d = Some a \<longrightarrow> a < next_addr h)"
proof
  assume a: "slots_allocated h q"
  show "\<forall>ty d a. slot q ty d = Some a \<longrightarrow> a < next_addr h"
  proof (intro allI impI)
    fix ty d a
    assume s: "slot q ty d = Some a"
    have "ty \<in> set all_types" by (cases ty) (simp_all add: all_types_def)
    moreover have "d \<in> set [True, False]" by simp
    ultimately have "case slot q ty d of None \<Rightarrow> True | Some a \<Rightarrow> a < next_addr h"
      using a unfolding slots_allocated_def list_all_iff by blast
    then show "a < next_addr h" using s by simp
  qed
next
  assume "\<forall>ty d a. slot q ty d = Some a \<longrightarrow> a < next_addr h"
  then show "slots_allocated h q"
    unfolding slots_allocated_def list_all_iff by (auto split: option.splits)
qed

lemma build_result:
  assumes "build env r h q = (res, h', q')"
  shows "res = (case snd (reset_of env h q r) of
                  Some e \<Rightarrow> (None, Some e) | None \<Rightarrow> (Some (target h q r), None))"
    and "cell h' = (cell h)(target h q r := fst (reset_of env h q r))"
    and "next_addr h' = (case slot q (req_type r) (Ascending (req_opt r)) of
                           None \<Rightarrow> Suc (next_addr h) | Some a \<Rightarrow> next_addr h)"
    and "q' = (case slot q (req_type r) (Ascending (req_opt r)) of
                 None \<Rightarrow> populate (q\<lparr>itr_key := new_key env q r\<rparr>)
                           (req_type r) (Ascending (req_opt r)) (next_addr h)
               | Some a \<Rightarrow> q\<lparr>itr_key := new_key env q r\<rparr>)"
  using assms unfolding build_eq by auto

lemma build_slot:
  assumes "build env r h q = (res, h', q')"
  shows "slot q' ty d = (if is_for r ty d then Some (target h q r) else slot q ty d)"
proof (cases "slot q (req_type r) (Ascending (req_opt r))")
  case None
  then have "q' = populate (q\<lparr>itr_key := new_key env q r\<rparr>)
      (req_type r) (Ascending (req_opt r)) (next_addr h)"
    and "target h q r = next_addr h"
    by (simp_all add: build_result(4) [OF assms] target_def)
  then show ?thesis by (simp add: slot_populate is_for_def)
next
  case (Some a)
  then have "q' = q\<lparr>itr_key := new_key env q r\<rparr>" and "target h q r = a"
    by (simp_all add: build_result(4) [OF assms] target_def)
  then show ?thesis using Some by (auto simp: is_for_def)
qed

lemma build_stable:
  assumes "build env r h q = (res, h', q')" and "slot q ty d = Some a"
  shows "slot q' ty d = Some a"
  using assms(2) unfolding build_slot [OF assms(1)] by (auto simp: target_def is_for_def)

lemma build_reuse:
  assumes "build env r h q = (res, h', q')" and "slot q ty d = Some a" and "is_for r ty d"
  shows "target h q r = a" and "next_addr h' = next_addr h"
    and "q' = q\<lparr>itr_key := new_key env q r\<rparr>"
    and "snd res = None \<Longrightarrow> fst res = Some a"
proof -
  have s: "slot q (req_type r) (Ascending (req_opt r)) = Some a"
    using assms(2,3) by (simp add: is_for_def)
  show t: "target h q r = a" by (simp add: target_def s)
  show "next_addr h' = next_addr h" by (simp add: build_result(3) [OF assms(1)] s)
  show "q' = q\<lparr>itr_key := new_key env q r\<rparr>" by (simp add: build_result(4) [OF assms(1)] s)
  show "snd res = None \<Longrightarrow> fst res = Some a"
    unfolding build_result(1) [OF assms(1)] t by (auto split: option.splits)
qed

lemma builds_reuse:
  "slot q ty d = Some a \<Longrightarrow> builds env rs h q = (ress, h', q') \<Longrightarrow>
    length ress = length rs \<and> slot q' ty d = Some a \<and>
    (\<forall>i<length rs. is_for (rs ! i) ty d \<and> snd (ress ! i) = None \<longrightarrow> fst (ress ! i) = Some a)"
proof (induction rs arbitrary: h q ress h' q')
  case Nil
  then show ?case by simp
next
  case (Cons r rs)
  obtain res h1 q1 where b: "build env r h q = (res, h1, q1)" by (cases "build env r h q")
  obtain ress1 h2 q2 where bs: "builds env rs h1 q1 = (ress1, h2, q2)" by (cases "builds env rs h1 q1")
  have e: "ress = res # ress1" "h' = h2" "q' = q2" using Cons.prems(2) by (simp_all add: b bs)
  have s1: "slot q1 ty d = Some a" using b Cons.prems(1) by (rule build_stable)
  note ih = Cons.IH [OF s1 bs]
  have hd: "is_for r ty d \<and> snd res = None \<longrightarrow> fst res = Some a"
    using build_reuse(4) [OF b Cons.prems(1)] by blast
  have "\<forall>i<length (r # rs). is_for ((r # rs) ! i) ty d \<and> snd (ress ! i) = None \<longrightarrow> fst (ress ! i) = Some a"
  proof (intro allI impI)
    fix i assume i: "i < length (r # rs)"
      and p: "is_for ((r # rs) ! i) ty d \<and> snd (ress ! i) = None"
    show "fst (ress ! i) = Some a"
    proof (cases i)
      case 0
      then show ?thesis using hd p e by simp
    next
      case (Suc j)
      then show ?thesis using ih i p e by simp
    qed
  qed
  then show ?case using ih e by simp
qed

lemmas test_defs = reset_of_def new_key_def target_def pooled_object_def slot_def test_env_def test_request_def
  empty_iterator_def empty_slots_def empty_store_def is_for_def

text \<open>
  Claim C6.  Whatever a build method returns, the error is the one \<^verbatim>\<open>reset\<close> reported for
  the pooled cursor; if there is an error the cursor returned is \<^verbatim>\<open>nil\<close>; if there is none
  the cursor returned is the non-nil pointer in the slot, and the object it points to is
  the one \<^verbatim>\<open>reset\<close> left.  A cursor and an error are never returned together.
\<close>

theorem build_cursor_or_error:
  assumes "build env r h q = ((cur, err), h', q')"
  shows "err = snd (reset_of env h q r) \<and>
    (\<forall>e. err = Some e \<longrightarrow> cur = None) \<and>
    (err = None \<longrightarrow>
       cur = Some (target h q r) \<and>
       slot q' (req_type r) (Ascending (req_opt r)) = cur \<and>
       cell h' (target h q r) = fst (reset_of env h q r)) \<and>
    \<not> (cur \<noteq> None \<and> err \<noteq> None)"
proof -
  have res: "(cur, err) = (case snd (reset_of env h q r) of
                  Some e \<Rightarrow> (None, Some e) | None \<Rightarrow> (Some (target h q r), None))"
    using assms by (rule build_result(1))
  have c: "cell h' (target h q r) = fst (reset_of env h q r)"
    by (simp add: build_result(2) [OF assms])
  have s: "slot q' (req_type r) (Ascending (req_opt r)) = Some (target h q r)"
    by (simp add: build_slot [OF assms] is_for_def)
  show ?thesis using res c s by (cases "snd (reset_of env h q r)") auto
qed

text \<open>A failing and a succeeding build on an iterator with empty slots.\<close>

theorem build_cursor_or_error_witness:
  "fst (build test_env (test_request models_Float True []) empty_store empty_iterator) =
     (None, Some ''read error'') \<and>
   fst (build test_env (test_request models_String False [1]) empty_store empty_iterator) =
     (Some 0, None)"
proof -
  let ?bad = "test_request models_Float True []" and ?good = "test_request models_String False [1]"
  obtain c1 e1 h1 q1 where b1: "build test_env ?bad empty_store empty_iterator = ((c1, e1), h1, q1)"
    by (metis surj_pair)
  obtain c2 e2 h2 q2 where b2: "build test_env ?good empty_store empty_iterator = ((c2, e2), h2, q2)"
    by (metis surj_pair)
  have r1: "snd (reset_of test_env empty_store empty_iterator ?bad) = Some ''read error''"
    by (simp add: test_defs)
  have r2: "snd (reset_of test_env empty_store empty_iterator ?good) = None"
    "target empty_store empty_iterator ?good = 0"
    by (simp_all add: test_defs)
  have "c1 = None" "e1 = Some ''read error''"
    using build_cursor_or_error [OF b1] unfolding r1 by simp_all
  moreover have "c2 = Some 0" "e2 = None"
    using build_cursor_or_error [OF b2] unfolding r2 by simp_all
  ultimately show ?thesis by (simp add: b1 b2)
qed

text \<open>
  Claim C5.  Take a build call for a value type and direction, followed by any further
  build calls on the same iterator.  The first call works on one cursor instance
  (\<open>target\<close>): a newly allocated one, distinct from every pooled cursor, if the slot was
  \<^verbatim>\<open>nil\<close>, and the slot's instance, with no allocation, otherwise; that instance is
  reinitialised by \<^verbatim>\<open>reset\<close> and stays in the slot; every successful build among these
  calls for the same type and direction returns the pointer to it.  A build for another
  type or direction does not touch the slot.
\<close>

theorem pooled_cursor_identity:
  fixes env :: "('o, 'e, 'cv, 'kc, 'c, 'x) collaborators"
  assumes "is_for r ty d" and "builds env (r # rs) h q = (ress, h', q')"
  shows "length ress = Suc (length rs) \<and>
    slot q' ty d = Some (target h q r) \<and>
    (\<forall>i<length ress. is_for ((r # rs) ! i) ty d \<and> snd (ress ! i) = None \<longrightarrow>
       fst (ress ! i) = Some (target h q r)) \<and>
    cell (fst (snd (build env r h q))) (target h q r) = fst (reset_of env h q r) \<and>
    (slot q ty d = None \<longrightarrow>
       target h q r = next_addr h \<and>
       next_addr (fst (snd (build env r h q))) = Suc (next_addr h) \<and>
       (slots_allocated h q \<longrightarrow> (\<forall>ty' d'. slot q ty' d' \<noteq> Some (target h q r)))) \<and>
    (\<forall>a. slot q ty d = Some a \<longrightarrow>
       target h q r = a \<and> next_addr (fst (snd (build env r h q))) = next_addr h) \<and>
    (\<forall>r'. \<not> is_for r' ty d \<longrightarrow> slot (snd (snd (build env r' h q))) ty d = slot q ty d)"
proof -
  obtain res h1 q1 where b: "build env r h q = (res, h1, q1)" by (cases "build env r h q")
  obtain ress1 h2 q2 where bs: "builds env rs h1 q1 = (ress1, h2, q2)" by (cases "builds env rs h1 q1")
  have e: "ress = res # ress1" "q' = q2" using assms(2) by (simp_all add: b bs)
  have s1: "slot q1 ty d = Some (target h q r)"
    using assms(1) by (simp add: build_slot [OF b])
  note later = builds_reuse [OF s1 bs]
  have first: "snd res = None \<longrightarrow> fst res = Some (target h q r)"
    unfolding build_result(1) [OF b] by (simp split: option.splits)
  have len: "length ress = Suc (length rs)" using later e by simp
  have fin: "slot q' ty d = Some (target h q r)" using later e by simp
  have all: "\<forall>i<length ress. is_for ((r # rs) ! i) ty d \<and> snd (ress ! i) = None \<longrightarrow>
       fst (ress ! i) = Some (target h q r)"
  proof (intro allI impI)
    fix i assume i: "i < length ress"
      and p: "is_for ((r # rs) ! i) ty d \<and> snd (ress ! i) = None"
    show "fst (ress ! i) = Some (target h q r)"
    proof (cases i)
      case 0
      then show ?thesis using first p e by simp
    next
      case (Suc j)
      then show ?thesis using later i p e by simp
    qed
  qed
  have obj: "cell (fst (snd (build env r h q))) (target h q r) = fst (reset_of env h q r)"
    by (simp add: b build_result(2) [OF b])
  have sl: "slot q (req_type r) (Ascending (req_opt r)) = slot q ty d"
    using assms(1) by (simp add: is_for_def)
  have fresh: "slot q ty d = None \<longrightarrow>
       target h q r = next_addr h \<and>
       next_addr (fst (snd (build env r h q))) = Suc (next_addr h) \<and>
       (slots_allocated h q \<longrightarrow> (\<forall>ty' d'. slot q ty' d' \<noteq> Some (target h q r)))"
  proof
    assume n: "slot q ty d = None"
    have t: "target h q r = next_addr h" by (simp add: target_def sl n)
    have a: "next_addr (fst (snd (build env r h q))) = Suc (next_addr h)"
      by (simp add: b build_result(3) [OF b] sl n)
    have "slots_allocated h q \<longrightarrow> (\<forall>ty' d'. slot q ty' d' \<noteq> Some (next_addr h))"
      unfolding slots_allocated_iff by (metis less_irrefl)
    then show "target h q r = next_addr h \<and>
       next_addr (fst (snd (build env r h q))) = Suc (next_addr h) \<and>
       (slots_allocated h q \<longrightarrow> (\<forall>ty' d'. slot q ty' d' \<noteq> Some (target h q r)))"
      using t a by simp
  qed
  have reuse: "\<forall>a. slot q ty d = Some a \<longrightarrow>
       target h q r = a \<and> next_addr (fst (snd (build env r h q))) = next_addr h"
    using build_reuse(1,2) [OF b _ assms(1)] by (simp add: b)
  have other: "\<forall>r'. \<not> is_for r' ty d \<longrightarrow> slot (snd (snd (build env r' h q))) ty d = slot q ty d"
  proof (intro allI impI)
    fix r' :: "'o request"
    assume n: "\<not> is_for r' ty d"
    obtain res' h3 q3 where b': "build env r' h q = (res', h3, q3)" by (cases "build env r' h q")
    show "slot (snd (snd (build env r' h q))) ty d = slot q ty d"
      using n by (simp add: b' build_slot [OF b'])
  qed
  show ?thesis using len fin all obj fresh reuse other by blast
qed

text \<open>Four builds on an iterator with empty slots; the second one fails.\<close>

theorem pooled_cursor_identity_witness:
  "length (fst (builds test_env
      [test_request models_Float True [1], test_request models_Float True [],
       test_request models_String False [2], test_request models_Float True [3]]
      empty_store empty_iterator)) = 4 \<and>
   slot (snd (snd (builds test_env
      [test_request models_Float True [1], test_request models_Float True [],
       test_request models_String False [2], test_request models_Float True [3]]
      empty_store empty_iterator))) models_Float True = Some 0"
proof -
  let ?rs = "[test_request models_Float True [], test_request models_String False [2],
    test_request models_Float True [3]]"
  obtain ress h' q' where
    b: "builds test_env (test_request models_Float True [1] # ?rs) empty_store empty_iterator = (ress, h', q')"
    by (metis surj_pair)
  have f: "is_for (test_request models_Float True [1]) models_Float True"
    by (simp add: test_defs)
  have t: "target empty_store empty_iterator (test_request models_Float True [1]) = 0"
    by (simp add: test_defs)
  from pooled_cursor_identity [OF f b]
  have "length ress = Suc (length ?rs)" and "slot q' models_Float True = Some 0"
    unfolding t by blast+
  then show ?thesis unfolding b by simp
qed




end
